theory Spec2Isabelle
  imports Main
begin

section \<open>Market data and its processing\<close>

text \<open>
  The classes \<^verbatim>\<open>BondMarketData\<close> and \<^verbatim>\<open>InterestRateMarketData\<close> are the two
  implementations of the abstract class \<^verbatim>\<open>MarketData\<close>; each stores one \<^verbatim>\<open>double\<close>.
  The program never computes with the stored number, it only prints it, so the type of
  the number is left open as \<open>'d\<close>.
\<close>

datatype 'd MarketData =
    BondMarketData 'd
  | InterestRateMarketData 'd

text \<open>
  The two output streams. The record is extensible, so a tracing field can be added
  beside the streams without touching the functions that write to them.
\<close>

record io =
  cout :: string
  cerr :: string

definition endl :: string where
  "endl = [CHR 0x0A]"

text \<open>
  What a call of a C++ function can throw: an object of a class derived from
  \<^verbatim>\<open>std::exception\<close>, carrying the text that \<^verbatim>\<open>what()\<close> returns, or an object of
  any other type.
\<close>

datatype thrown =
    std_exception string
  | other_throwable

text \<open>
  A call of the virtual \<^verbatim>\<open>process()\<close> on an element: the element after the call
  (the member function is not \<^verbatim>\<open>const\<close>), the streams after the call, and what the
  call threw, if anything.
\<close>

type_synonym ('T, 'z) process_fn =
  "'T \<Rightarrow> 'z io_scheme \<Rightarrow> 'T \<times> 'z io_scheme \<times> thrown option"

text \<open>
  \<^verbatim>\<open>BondMarketData::process\<close> and \<^verbatim>\<open>InterestRateMarketData::process\<close>. The
  parameter \<open>fmt\<close> is the text that \<^verbatim>\<open>operator<<\<close> of the standard library writes for
  a \<^verbatim>\<open>double\<close>.
\<close>

fun process :: "('d \<Rightarrow> string) \<Rightarrow> 'd MarketData \<Rightarrow> io \<Rightarrow> 'd MarketData \<times> io \<times> thrown option" where
  "process fmt (BondMarketData bondPrice) w =
     (BondMarketData bondPrice,
      w\<lparr>cout := cout w @ ''Processing Bond Market Data: Price = '' @ fmt bondPrice @ endl\<rparr>,
      None)"
| "process fmt (InterestRateMarketData interestRate) w =
     (InterestRateMarketData interestRate,
      w\<lparr>cout := cout w @ ''Processing Interest Rate Market Data: Rate = '' @ fmt interestRate @ endl\<rparr>,
      None)"

section \<open>The data processor\<close>

record 'T DataProcessor =
  marketDataList :: "'T list"

definition addData :: "'T DataProcessor \<Rightarrow> 'T \<Rightarrow> 'T DataProcessor" where
  "addData p data = p\<lparr>marketDataList := marketDataList p @ [data]\<rparr>"

text \<open>
  The body of the loop of \<^verbatim>\<open>processAll\<close>: the call of \<^verbatim>\<open>process()\<close> in its
  \<^verbatim>\<open>try\<close> block. The handler catches \<^verbatim>\<open>const std::exception&\<close> only and writes
  its message to the error stream; an object of another type leaves the body.
\<close>

definition try_process ::
  "('T, 'z) process_fn \<Rightarrow> 'T \<Rightarrow> 'z io_scheme \<Rightarrow> 'T \<times> 'z io_scheme \<times> thrown option"
where
  "try_process proc data w =
     (case proc data w of
        (data', w', None) \<Rightarrow> (data', w', None)
      | (data', w', Some (std_exception what)) \<Rightarrow>
          (data',
           w'\<lparr>cerr := cerr w' @ ''Exception while processing market data: '' @ what @ endl\<rparr>,
           None)
      | (data', w', Some other_throwable) \<Rightarrow> (data', w', Some other_throwable))"

text \<open>
  The loop of \<^verbatim>\<open>processAll\<close> over the elements still to visit. An exception that
  leaves the body leaves the loop, and the elements after it are not visited.
\<close>

fun processAll_loop ::
  "('T, 'z) process_fn \<Rightarrow> 'T list \<Rightarrow> 'z io_scheme \<Rightarrow> 'T list \<times> 'z io_scheme \<times> thrown option"
where
  "processAll_loop proc [] w = ([], w, None)"
| "processAll_loop proc (data # rest) w =
     (case try_process proc data w of
        (data', w', None) \<Rightarrow>
          (case processAll_loop proc rest w' of
             (rest', w'', r) \<Rightarrow> (data' # rest', w'', r))
      | (data', w', Some t) \<Rightarrow> (data' # rest, w', Some t))"

definition processAll ::
  "('T, 'z) process_fn \<Rightarrow> 'T DataProcessor \<Rightarrow> 'z io_scheme
     \<Rightarrow> 'T DataProcessor \<times> 'z io_scheme \<times> thrown option"
where
  "processAll proc p w =
     (case processAll_loop proc (marketDataList p) w of
        (l, w', r) \<Rightarrow> (p\<lparr>marketDataList := l\<rparr>, w', r))"

text \<open>
  Tracing of the calls. The field \<open>calls\<close> extends the streams. \<open>traced proc\<close>
  runs \<open>proc\<close> on the two streams and records the element it was called on; \<open>proc\<close>
  itself never sees the field, and \<open>processAll\<close> neither reads nor writes it.
\<close>

record 'T traced_io = io +
  calls :: "'T list"

definition traced ::
  "('T \<Rightarrow> io \<Rightarrow> 'T \<times> io \<times> thrown option)
     \<Rightarrow> 'T \<Rightarrow> 'T traced_io \<Rightarrow> 'T \<times> 'T traced_io \<times> thrown option"
where
  "traced proc data w =
     (case proc data \<lparr>cout = cout w, cerr = cerr w\<rparr> of
        (data', w', r) \<Rightarrow>
          (data', \<lparr>cout = cout w', cerr = cerr w', calls = calls w @ [data]\<rparr>, r))"

text \<open>
  The line that the specification documents for an element, without the end of line.
\<close>

fun documented_line :: "('d \<Rightarrow> string) \<Rightarrow> 'd MarketData \<Rightarrow> string" where
  "documented_line fmt (BondMarketData X) = ''Processing Bond Market Data: Price = '' @ fmt X"
| "documented_line fmt (InterestRateMarketData Y) =
     ''Processing Interest Rate Market Data: Rate = '' @ fmt Y"


section \<open>The worker threads and the driver\<close>

text \<open>
  The threads are modelled by interleaving: a state of the whole program, and steps that
  execute one statement of one thread. The mutex has at most one holder, and a thread
  that constructs a \<^verbatim>\<open>lock_guard\<close> on a held mutex waits. The threads share the
  processor and the mutex only, and the processor is accessed under the mutex or after
  the joins only, so that the size of the steps does not matter. The creation of a thread
  and the allocation of memory are taken to succeed.
\<close>

text \<open>
  The program counter of a thread that runs \<^verbatim>\<open>simulateMarketData\<close>: the statement it
  executes next. \<open>Gen_Bond\<close> and \<open>Gen_Rate\<close> are the two \<^verbatim>\<open>make_unique\<close> lines with
  their draw from \<^verbatim>\<open>dis(gen)\<close>, \<open>Lock\<close> is the construction of the \<^verbatim>\<open>lock_guard\<close>,
  \<open>Add_Bond\<close> and \<open>Add_Rate\<close> are the two calls of \<^verbatim>\<open>addData\<close>, \<open>Unlock\<close> is the end
  of the block, where the guard releases the mutex.
\<close>

datatype worker_pc = Gen_Bond | Gen_Rate | Lock | Add_Bond | Add_Rate | Unlock | Finished

text \<open>
  The locals of the thread. A \<^verbatim>\<open>unique_ptr\<close> is \<open>None\<close> while it is null: before
  \<^verbatim>\<open>make_unique\<close> and after \<^verbatim>\<open>std::move\<close>.
\<close>

record 'd worker =
  pc :: worker_pc
  bondData :: "'d MarketData option"
  interestRateData :: "'d MarketData option"

text \<open>
  The program counter of \<^verbatim>\<open>main\<close>: in the first loop with counter \<open>i\<close>, in the loop
  of the joins at the thread with index \<open>j\<close>, before \<^verbatim>\<open>processAll\<close>, before
  \<^verbatim>\<open>return 0\<close>, returned with an exit code, or ended by \<^verbatim>\<open>std::terminate\<close> after
  an exception left \<^verbatim>\<open>main\<close>.
\<close>

datatype main_pc = Spawning nat | Joining nat | Consuming | Returning | Exited int | Terminated

record 'd state =
  processor :: "'d MarketData DataProcessor"
  mtx :: "nat option"
  threads :: "'d worker list"
  main_pc :: main_pc
  streams :: io

definition init :: "'d state" where
  "init = \<lparr>processor = \<lparr>marketDataList = []\<rparr>, mtx = None, threads = [],
           main_pc = Spawning 0, streams = \<lparr>cout = [], cerr = []\<rparr>\<rparr>"

text \<open>
  The distribution \<^verbatim>\<open>dis(1.0, 100.0)\<close> of a thread, with the two parameters that the
  source gives it. \<open>in_range d v\<close> says that \<open>v\<close> is a number that a draw from \<open>d\<close> can
  yield: the standard library yields a number from \<open>a\<close> up to \<open>b\<close>; that it lies
  between the two parameters is all that is used here.
\<close>

record 'd uniform_real_distribution =
  param_a :: 'd
  param_b :: 'd

definition dis :: "'d::numeral uniform_real_distribution" where
  "dis = \<lparr>param_a = 1, param_b = 100\<rparr>"

definition in_range :: "'d::ord uniform_real_distribution \<Rightarrow> 'd \<Rightarrow> bool" where
  "in_range d v = (param_a d \<le> v \<and> v \<le> param_b d)"

text \<open>
  One step of thread \<open>k\<close> in \<^verbatim>\<open>simulateMarketData\<close>. \<open>v\<close> is the number that
  \<^verbatim>\<open>dis(gen)\<close> yields if the step draws one. The result is the state after the step
  with the calls of \<^verbatim>\<open>addData\<close> that the step made (the thread and the element), or
  \<open>None\<close> when the thread cannot move: it waits for the mutex, or it has finished.
  The random device, the generator and the distribution are set up in the step
  \<open>Gen_Bond\<close>. A call of \<^verbatim>\<open>addData\<close> with a null pointer is not modelled, the step
  is \<open>None\<close>; by \<open>locals_inv\<close> below no run comes to such a call.
\<close>

definition simulateMarketData_step ::
  "nat \<Rightarrow> 'd \<Rightarrow> 'd state \<Rightarrow> ('d state \<times> (nat \<times> 'd MarketData) list) option"
where
  "simulateMarketData_step k v s =
     (let t = threads s ! k in
      case pc t of
        Gen_Bond \<Rightarrow>
          Some (s\<lparr>threads := (threads s)[k := t\<lparr>pc := Gen_Rate,
                                                   bondData := Some (BondMarketData v)\<rparr>]\<rparr>, [])
      | Gen_Rate \<Rightarrow>
          Some (s\<lparr>threads := (threads s)[k := t\<lparr>pc := Lock,
                                                   interestRateData := Some (InterestRateMarketData v)\<rparr>]\<rparr>, [])
      | Lock \<Rightarrow>
          (case mtx s of
             None \<Rightarrow> Some (s\<lparr>mtx := Some k, threads := (threads s)[k := t\<lparr>pc := Add_Bond\<rparr>]\<rparr>, [])
           | Some owner \<Rightarrow> None)
      | Add_Bond \<Rightarrow>
          (case bondData t of
             None \<Rightarrow> None
           | Some data \<Rightarrow>
               Some (s\<lparr>processor := addData (processor s) data,
                        threads := (threads s)[k := t\<lparr>pc := Add_Rate, bondData := None\<rparr>]\<rparr>,
                     [(k, data)]))
      | Add_Rate \<Rightarrow>
          (case interestRateData t of
             None \<Rightarrow> None
           | Some data \<Rightarrow>
               Some (s\<lparr>processor := addData (processor s) data,
                        threads := (threads s)[k := t\<lparr>pc := Unlock, interestRateData := None\<rparr>]\<rparr>,
                     [(k, data)]))
      | Unlock \<Rightarrow>
          Some (s\<lparr>mtx := None, threads := (threads s)[k := t\<lparr>pc := Finished\<rparr>]\<rparr>, [])
      | Finished \<Rightarrow> None)"

text \<open>
  One step of \<^verbatim>\<open>main\<close>. \<open>proc\<close> is the \<^verbatim>\<open>process()\<close> that the virtual call
  reaches. A join waits until the joined thread has finished.
\<close>

definition main_step ::
  "('d MarketData \<Rightarrow> io \<Rightarrow> 'd MarketData \<times> io \<times> thrown option) \<Rightarrow> 'd state \<Rightarrow> 'd state option"
where
  "main_step proc s =
     (case main_pc s of
        Spawning i \<Rightarrow>
          if i < 5
          then Some (s\<lparr>threads := threads s @ [\<lparr>pc = Gen_Bond, bondData = None,
                                                  interestRateData = None\<rparr>],
                       main_pc := Spawning (i + 1)\<rparr>)
          else Some (s\<lparr>main_pc := Joining 0\<rparr>)
      | Joining j \<Rightarrow>
          if j < length (threads s)
          then (if pc (threads s ! j) = Finished then Some (s\<lparr>main_pc := Joining (j + 1)\<rparr>)
                else None)
          else Some (s\<lparr>main_pc := Consuming\<rparr>)
      | Consuming \<Rightarrow>
          (case processAll proc (processor s) (streams s) of
             (p, w, None) \<Rightarrow> Some (s\<lparr>processor := p, streams := w, main_pc := Returning\<rparr>)
           | (p, w, Some t) \<Rightarrow> Some (s\<lparr>processor := p, streams := w, main_pc := Terminated\<rparr>))
      | Returning \<Rightarrow> Some (s\<lparr>main_pc := Exited 0\<rparr>)
      | Exited c \<Rightarrow> None
      | Terminated \<Rightarrow> None)"

text \<open>
  The scheduler picks the thread that moves next: \<^verbatim>\<open>main\<close>, or the thread with index
  \<open>k\<close> of the vector \<^verbatim>\<open>threads\<close>, together with the number its random source yields
  if the step draws one.
\<close>

datatype 'd action = Main | Worker nat 'd

definition step ::
  "('d MarketData \<Rightarrow> io \<Rightarrow> 'd MarketData \<times> io \<times> thrown option) \<Rightarrow> 'd state \<Rightarrow> 'd action
     \<Rightarrow> ('d state \<times> (nat \<times> 'd MarketData) list) option"
where
  "step proc s a =
     (case a of
        Main \<Rightarrow> (case main_step proc s of None \<Rightarrow> None | Some s' \<Rightarrow> Some (s', []))
      | Worker k v \<Rightarrow>
          if k < length (threads s) then simulateMarketData_step k v s else None)"

text \<open>
  A run of the program under a schedule, from a state and the list of the calls of
  \<^verbatim>\<open>addData\<close> made so far. The result is \<open>None\<close> when the schedule picks a thread
  that cannot move.
\<close>

fun run ::
  "('d MarketData \<Rightarrow> io \<Rightarrow> 'd MarketData \<times> io \<times> thrown option)
     \<Rightarrow> 'd state \<times> (nat \<times> 'd MarketData) list \<Rightarrow> 'd action list
     \<Rightarrow> ('d state \<times> (nat \<times> 'd MarketData) list) option"
where
  "run proc c [] = Some c"
| "run proc (s, log) (a # as) =
     (case step proc s a of
        None \<Rightarrow> None
      | Some (s', added) \<Rightarrow> run proc (s', log @ added) as)"

text \<open>
  The numbers drawn from \<^verbatim>\<open>dis(gen)\<close>: by one step, which draws when its thread is at
  one of the two \<^verbatim>\<open>make_unique\<close> lines, and by the steps of a schedule from a state.
\<close>

definition draw :: "'d state \<Rightarrow> 'd action \<Rightarrow> 'd list" where
  "draw s a =
     (case a of
        Main \<Rightarrow> []
      | Worker k v \<Rightarrow>
          if k < length (threads s)
             \<and> (pc (threads s ! k) = Gen_Bond \<or> pc (threads s ! k) = Gen_Rate)
          then [v] else [])"

fun draws ::
  "('d MarketData \<Rightarrow> io \<Rightarrow> 'd MarketData \<times> io \<times> thrown option)
     \<Rightarrow> 'd state \<Rightarrow> 'd action list \<Rightarrow> 'd list"
where
  "draws proc s [] = []"
| "draws proc s (a # as) =
     draw s a @ (case step proc s a of None \<Rightarrow> [] | Some (s', added) \<Rightarrow> draws proc s' as)"

text \<open>After the joins: \<^verbatim>\<open>main\<close> has left the loop that joins the threads.\<close>

fun joined :: "main_pc \<Rightarrow> bool" where
  "joined (Spawning i) = False"
| "joined (Joining j) = False"
| "joined Consuming = True"
| "joined Returning = True"
| "joined (Exited c) = True"
| "joined Terminated = True"

section \<open>Invariants of the runs\<close>

fun is_bond :: "'d MarketData \<Rightarrow> bool" where
  "is_bond (BondMarketData x) = True"
| "is_bond (InterestRateMarketData y) = False"

fun is_rate :: "'d MarketData \<Rightarrow> bool" where
  "is_rate (BondMarketData x) = False"
| "is_rate (InterestRateMarketData y) = True"

text \<open>
  A list of calls of \<^verbatim>\<open>addData\<close> made of pairs: two calls by the same thread, the
  first with a bond and the second with an interest rate, and no other call by that
  thread.
\<close>

fun paired :: "(nat \<times> 'd MarketData) list \<Rightarrow> bool" where
  "paired [] = True"
| "paired [e] = False"
| "paired (e # e' # rest) =
     (fst e' = fst e \<and> is_bond (snd e) \<and> is_rate (snd e') \<and> fst e \<notin> fst ` set rest
      \<and> paired rest)"

text \<open>The thread holds the mutex exactly while it is between \<open>Lock\<close> and \<open>Unlock\<close>.\<close>

definition mutex_inv :: "'d state \<Rightarrow> bool" where
  "mutex_inv s =
     ((\<forall>k<length (threads s).
         (pc (threads s ! k) \<in> {Add_Bond, Add_Rate, Unlock}) = (mtx s = Some k))
      \<and> (\<forall>k. mtx s = Some k \<longrightarrow> k < length (threads s)))"

text \<open>The two pointers of a thread hold what it made until it hands them over.\<close>

definition locals_inv :: "'d state \<Rightarrow> bool" where
  "locals_inv s =
     (\<forall>k<length (threads s).
        (pc (threads s ! k) \<in> {Gen_Rate, Lock, Add_Bond} \<longrightarrow>
           (\<exists>v. bondData (threads s ! k) = Some (BondMarketData v)))
      \<and> (pc (threads s ! k) \<in> {Lock, Add_Bond, Add_Rate} \<longrightarrow>
           (\<exists>v. interestRateData (threads s ! k) = Some (InterestRateMarketData v))))"

text \<open>
  \<^verbatim>\<open>main\<close> has created as many threads as its counter says, the threads it has
  joined have finished, and it returns 0 only.
\<close>

definition main_inv :: "'d state \<Rightarrow> bool" where
  "main_inv s =
     (case main_pc s of
        Spawning i \<Rightarrow> length (threads s) = i \<and> i \<le> 5
      | Joining j \<Rightarrow>
          length (threads s) = 5 \<and> j \<le> 5 \<and> (\<forall>k<j. pc (threads s ! k) = Finished)
      | Exited c \<Rightarrow>
          c = 0 \<and> length (threads s) = 5 \<and> (\<forall>k<5. pc (threads s ! k) = Finished)
      | _ \<Rightarrow> length (threads s) = 5 \<and> (\<forall>k<5. pc (threads s ! k) = Finished))"

text \<open>
  The calls of \<^verbatim>\<open>addData\<close> so far: up to the call of \<^verbatim>\<open>processAll\<close> they are the
  list of the processor; the threads that have made a call are those past \<open>Add_Bond\<close>;
  the calls are made of pairs, but for the first call of the thread that is between its
  two calls.
\<close>

definition log_inv :: "'d state \<Rightarrow> (nat \<times> 'd MarketData) list \<Rightarrow> bool" where
  "log_inv s log =
     ((main_pc s \<noteq> Returning \<and> main_pc s \<noteq> Terminated \<and> (\<forall>c. main_pc s \<noteq> Exited c)
         \<longrightarrow> marketDataList (processor s) = map snd log)
      \<and> (\<forall>k. (k \<in> fst ` set log) =
               (k < length (threads s) \<and> pc (threads s ! k) \<in> {Add_Rate, Unlock, Finished}))
      \<and> (case mtx s of
           None \<Rightarrow> paired log
         | Some k \<Rightarrow>
             if pc (threads s ! k) = Add_Rate
             then \<exists>r b. log = r @ [(k, b)] \<and> is_bond b \<and> paired r \<and> k \<notin> fst ` set r
             else paired log))"

definition inv :: "'d state \<Rightarrow> (nat \<times> 'd MarketData) list \<Rightarrow> bool" where
  "inv s log = (mutex_inv s \<and> locals_inv s \<and> main_inv s \<and> log_inv s log)"

text \<open>The number that an element stores.\<close>

fun stored_value :: "'d MarketData \<Rightarrow> 'd" where
  "stored_value (BondMarketData bondPrice) = bondPrice"
| "stored_value (InterestRateMarketData interestRate) = interestRate"

text \<open>
  The numbers of all elements made so far satisfy \<open>P\<close>: of the elements handed to
  \<^verbatim>\<open>addData\<close> and of the elements that the threads still hold.
\<close>

definition values_in :: "('d \<Rightarrow> bool) \<Rightarrow> 'd state \<Rightarrow> (nat \<times> 'd MarketData) list \<Rightarrow> bool" where
  "values_in P s log =
     ((\<forall>e\<in>set log. P (stored_value (snd e)))
      \<and> (\<forall>t\<in>set (threads s).
            (\<forall>data. bondData t = Some data \<longrightarrow> P (stored_value data))
          \<and> (\<forall>data. interestRateData t = Some data \<longrightarrow> P (stored_value data))))"

text \<open>
  The number of steps that a state has behind it, at least: the statements that each
  thread has executed and the steps of \<^verbatim>\<open>main\<close>.
\<close>

fun worker_progress :: "worker_pc \<Rightarrow> nat" where
  "worker_progress Gen_Bond = 0"
| "worker_progress Gen_Rate = 1"
| "worker_progress Lock = 2"
| "worker_progress Add_Bond = 3"
| "worker_progress Add_Rate = 4"
| "worker_progress Unlock = 5"
| "worker_progress Finished = 6"

fun main_progress :: "main_pc \<Rightarrow> nat" where
  "main_progress (Spawning i) = i"
| "main_progress (Joining j) = 6 + j"
| "main_progress Consuming = 12"
| "main_progress Returning = 13"
| "main_progress (Exited c) = 14"
| "main_progress Terminated = 14"

definition progress :: "'d state \<Rightarrow> nat" where
  "progress s = main_progress (main_pc s) + sum_list (map (\<lambda>t. worker_progress (pc t)) (threads s))"

section \<open>Examples\<close>

text \<open>
  An element type with a \<^verbatim>\<open>process()\<close> that throws \<open>t\<close> when the stored number is
  zero.
\<close>

definition example_process :: "thrown \<Rightarrow> nat \<Rightarrow> io \<Rightarrow> nat \<times> io \<times> thrown option" where
  "example_process t n w =
     (n, w\<lparr>cout := cout w @ ''tick'' @ endl\<rparr>, if n = 0 then Some t else None)"

text \<open>
  A schedule of the whole program up to the call of \<^verbatim>\<open>processAll\<close>. The numbers are
  written as the text that the output shows for them. The threads 0 and 1 start while
  \<^verbatim>\<open>main\<close> is still creating threads, thread 1 takes the mutex first and thread 0
  waits for it, thread 4 runs before the threads 2 and 3.
\<close>

definition example_schedule :: "string action list" where
  "example_schedule =
     [Main, Main,
      Worker 0 ''57.3'', Worker 1 ''12.5'', Worker 1 ''3.75'', Worker 1 [],
      Main, Worker 0 ''1.5'', Worker 1 [], Main, Main, Main,
      Worker 1 [], Worker 1 [], Worker 0 [],
      Worker 4 ''99.9'', Worker 0 [], Worker 4 ''100'', Worker 0 [], Worker 0 [],
      Main, Main,
      Worker 4 [], Worker 2 ''42'', Worker 4 [], Worker 3 ''8.25'', Worker 4 [], Worker 4 [],
      Worker 3 ''64.1'', Worker 2 ''7'', Worker 3 [], Worker 3 [], Worker 3 [], Worker 3 [],
      Worker 2 [], Worker 2 [], Worker 2 [], Worker 2 [],
      Main, Main, Main, Main]"

definition example_log :: "(nat \<times> string MarketData) list" where
  "example_log =
     [(1, BondMarketData ''12.5''), (1, InterestRateMarketData ''3.75''),
      (0, BondMarketData ''57.3''), (0, InterestRateMarketData ''1.5''),
      (4, BondMarketData ''99.9''), (4, InterestRateMarketData ''100''),
      (3, BondMarketData ''8.25''), (3, InterestRateMarketData ''64.1''),
      (2, BondMarketData ''42''), (2, InterestRateMarketData ''7'')]"

definition example_joined :: "string state" where
  "example_joined =
     \<lparr>processor = \<lparr>marketDataList = map snd example_log\<rparr>, mtx = None,
      threads = replicate 5 \<lparr>pc = Finished, bondData = None, interestRateData = None\<rparr>,
      main_pc = Consuming, streams = \<lparr>cout = [], cerr = []\<rparr>\<rparr>"

text \<open>
  A \<^verbatim>\<open>process()\<close> that fails on every bond with a \<^verbatim>\<open>std::exception\<close> and
  processes an interest rate as the source does.
\<close>

definition example_failing ::
  "string MarketData \<Rightarrow> io \<Rightarrow> string MarketData \<times> io \<times> thrown option" where
  "example_failing data w =
     (case data of
        BondMarketData x \<Rightarrow> (data, w, Some (std_exception ''stale price''))
      | InterestRateMarketData y \<Rightarrow> process (\<lambda>x. x) data w)"

text \<open>The state of the example after \<^verbatim>\<open>main\<close> has returned, with the streams \<open>w\<close>.\<close>

definition example_exited :: "io \<Rightarrow> string state" where
  "example_exited w = example_joined\<lparr>streams := w, main_pc := Exited 0\<rparr>"

text \<open>
  The schedule of the example with whole numbers for the draws. The numbers of the steps
  that do not draw are 0.
\<close>

definition example_draws_schedule :: "int action list" where
  "example_draws_schedule =
     [Main, Main,
      Worker 0 57, Worker 1 12, Worker 1 3, Worker 1 0,
      Main, Worker 0 2, Worker 1 0, Main, Main, Main,
      Worker 1 0, Worker 1 0, Worker 0 0,
      Worker 4 99, Worker 0 0, Worker 4 100, Worker 0 0, Worker 0 0,
      Main, Main,
      Worker 4 0, Worker 2 42, Worker 4 0, Worker 3 8, Worker 4 0, Worker 4 0,
      Worker 3 64, Worker 2 1, Worker 3 0, Worker 3 0, Worker 3 0, Worker 3 0,
      Worker 2 0, Worker 2 0, Worker 2 0, Worker 2 0,
      Main, Main, Main, Main]"

definition example_draws_log :: "(nat \<times> int MarketData) list" where
  "example_draws_log =
     [(1, BondMarketData 12), (1, InterestRateMarketData 3),
      (0, BondMarketData 57), (0, InterestRateMarketData 2),
      (4, BondMarketData 99), (4, InterestRateMarketData 100),
      (3, BondMarketData 8), (3, InterestRateMarketData 64),
      (2, BondMarketData 42), (2, InterestRateMarketData 1)]"

definition example_draws_joined :: "int state" where
  "example_draws_joined =
     \<lparr>processor = \<lparr>marketDataList = map snd example_draws_log\<rparr>, mtx = None,
      threads = replicate 5 \<lparr>pc = Finished, bondData = None, interestRateData = None\<rparr>,
      main_pc = Consuming, streams = \<lparr>cout = [], cerr = []\<rparr>\<rparr>"

section \<open>Properties of the data processor\<close>

lemma processAll_loop_process:
  "processAll_loop (process fmt) ds w =
     (ds, w\<lparr>cout := cout w @ concat (map (\<lambda>d. documented_line fmt d @ endl) ds)\<rparr>, None)"
proof (induction ds arbitrary: w)
  case Nil
  show ?case by simp
next
  case (Cons d ds)
  show ?case by (cases d) (simp_all add: try_process_def Cons.IH)
qed

lemma processAll_process:
  "processAll (process fmt) p w =
     (p, w\<lparr>cout := cout w @ concat (map (\<lambda>d. documented_line fmt d @ endl) (marketDataList p))\<rparr>, None)"
  by (simp add: processAll_def processAll_loop_process)

lemma traced_process:
  "traced (process fmt) d w =
     (d, \<lparr>cout = cout w @ documented_line fmt d @ endl, cerr = cerr w, calls = calls w @ [d]\<rparr>, None)"
  by (cases d) (simp_all add: traced_def)

lemma processAll_loop_traced_process:
  "processAll_loop (traced (process fmt)) ds w =
     (ds, \<lparr>cout = cout w @ concat (map (\<lambda>d. documented_line fmt d @ endl) ds),
           cerr = cerr w, calls = calls w @ ds\<rparr>, None)"
proof (induction ds arbitrary: w)
  case Nil
  show ?case by simp
next
  case (Cons d ds)
  show ?case by (simp add: try_process_def traced_process[of fmt d w] Cons.IH)
qed

lemma processAll_loop_append:
  "processAll_loop proc (xs @ ys) w =
     (case processAll_loop proc xs w of
        (xs', w', None) \<Rightarrow>
          (case processAll_loop proc ys w' of (ys', w'', r) \<Rightarrow> (xs' @ ys', w'', r))
      | (xs', w', Some t) \<Rightarrow> (xs' @ ys, w', Some t))"
proof (induction xs arbitrary: w)
  case Nil
  show ?case by (simp split: prod.splits)
next
  case (Cons x xs)
  show ?case
    by (simp add: Cons.IH split: prod.splits option.splits)
qed

lemma try_process_traced_calls:
  "try_process (traced proc) d w = (d', w', r) \<Longrightarrow> calls w' = calls w @ [d]"
  by (auto simp: try_process_def traced_def split: prod.splits option.splits thrown.splits)

lemma try_process_traced_caught:
  "snd (snd (proc d \<lparr>cout = cout w, cerr = cerr w\<rparr>)) \<noteq> Some other_throwable
     \<Longrightarrow> try_process (traced proc) d w = (d', w', r) \<Longrightarrow> r = None"
  by (auto simp: try_process_def traced_def split: prod.splits option.splits thrown.splits)

lemma processAll_loop_traced_calls:
  assumes "\<forall>d\<in>set ds. \<forall>w. snd (snd (proc d w)) \<noteq> Some other_throwable"
    and "processAll_loop (traced proc) ds w = (ds', w', r)"
  shows "r = None \<and> calls w' = calls w @ ds"
  using assms
proof (induction ds arbitrary: w ds' w' r)
  case Nil
  then show ?case by simp
next
  case (Cons d ds)
  obtain d1 w1 r1 where t: "try_process (traced proc) d w = (d1, w1, r1)"
    by (cases "try_process (traced proc) d w") auto
  have c1: "calls w1 = calls w @ [d]" using t by (rule try_process_traced_calls)
  have r1: "r1 = None"
    using Cons.prems(1) try_process_traced_caught[OF _ t] by simp
  obtain ds2 w2 r2 where l: "processAll_loop (traced proc) ds w1 = (ds2, w2, r2)"
    by (cases "processAll_loop (traced proc) ds w1") auto
  have "r2 = None \<and> calls w2 = calls w1 @ ds"
    using Cons.IH[OF _ l] Cons.prems(1) by simp
  moreover have "w' = w2" "r = r2" using Cons.prems(2) t r1 l by simp_all
  ultimately show ?case using c1 by simp
qed

lemma addData_foldl:
  "marketDataList (foldl addData p ds) = marketDataList p @ ds"
  by (induction ds arbitrary: p) (simp_all add: addData_def)

text \<open>
  C8. Every line that \<^verbatim>\<open>process()\<close> writes to the standard output has the documented
  form: a bond with the stored price \<open>X\<close> writes \<^verbatim>\<open>Processing Bond Market Data: Price = \<close>
  followed by \<open>X\<close> as the stream formats it and the end of line, an interest rate with
  the stored rate \<open>Y\<close> writes \<^verbatim>\<open>Processing Interest Rate Market Data: Rate = \<close> followed
  by \<open>Y\<close> and the end of line; \<^verbatim>\<open>processAll\<close> writes these lines, one for each
  element, and nothing else.
\<close>

theorem process_prints_documented_line:
  "fst (snd (process fmt (BondMarketData X) w)) =
     w\<lparr>cout := cout w @ ''Processing Bond Market Data: Price = '' @ fmt X @ endl\<rparr>
   \<and> fst (snd (process fmt (InterestRateMarketData Y) w)) =
     w\<lparr>cout := cout w @ ''Processing Interest Rate Market Data: Rate = '' @ fmt Y @ endl\<rparr>
   \<and> cout (fst (snd (processAll (process fmt) p w))) =
     cout w @ concat (map (\<lambda>d. documented_line fmt d @ endl) (marketDataList p))"
  by (simp add: processAll_process)

text \<open>
  C4. \<^verbatim>\<open>processAll\<close> calls \<^verbatim>\<open>process()\<close> exactly once on each stored element, in
  the order in which \<^verbatim>\<open>addData\<close> appended the elements: on a processor that holds
  some elements and receives \<open>ds\<close> through successive calls of \<^verbatim>\<open>addData\<close>, the
  calls made are the elements held before, followed by \<open>ds\<close>.
\<close>

theorem processAll_calls_in_insertion_order:
  "calls (fst (snd (processAll (traced (process fmt)) (foldl addData p ds) w))) =
     calls w @ marketDataList p @ ds"
  by (simp add: processAll_def processAll_loop_traced_process addData_foldl)

text \<open>
  C6. \<^verbatim>\<open>processAll\<close> does not change the processor: two calls in succession return
  the processor as it was, and the second call writes to the standard output the same
  text as the first. Nothing is written to the error stream.
\<close>

theorem processAll_twice_same_output:
  "\<exists>w1 w2 out.
     processAll (process fmt) p w = (p, w1, None)
   \<and> processAll (process fmt) p w1 = (p, w2, None)
   \<and> cout w1 = cout w @ out \<and> cout w2 = cout w1 @ out
   \<and> cerr w1 = cerr w \<and> cerr w2 = cerr w"
  by (simp add: processAll_process)

text \<open>
  C3, as amended. The processor holds \<open>pre @ data # post\<close>, no element of which throws
  an object that is not derived from \<^verbatim>\<open>std::exception\<close>; the loop has gone through
  \<open>pre\<close>, and the call of \<^verbatim>\<open>process()\<close> on \<open>data\<close> throws a \<^verbatim>\<open>std::exception\<close> with
  the text \<open>what\<close>. Then \<^verbatim>\<open>processAll\<close> returns normally; it appends the message with
  \<open>what\<close> to the error stream and goes on with the loop over \<open>post\<close> from there; and
  \<^verbatim>\<open>process()\<close> has been called on every element, those of \<open>post\<close> included, in order.
\<close>

theorem processAll_continues_after_std_exception:
  assumes nf: "\<forall>d\<in>set (pre @ data # post). \<forall>w. snd (snd (proc d w)) \<noteq> Some other_throwable"
    and pre: "processAll_loop (traced proc) pre w = (pre', w1, r1)"
    and thr: "traced proc data w1 = (data', w2, Some (std_exception what))"
  shows "\<exists>post' w3.
      processAll (traced proc) \<lparr>marketDataList = pre @ data # post\<rparr> w =
        (\<lparr>marketDataList = pre' @ data' # post'\<rparr>, w3, None)
    \<and> processAll_loop (traced proc) post
        (w2\<lparr>cerr := cerr w2 @ ''Exception while processing market data: '' @ what @ endl\<rparr>) =
        (post', w3, None)
    \<and> calls w3 = calls w @ pre @ data # post"
proof -
  let ?w = "w2\<lparr>cerr := cerr w2 @ ''Exception while processing market data: '' @ what @ endl\<rparr>"
  have nf_pre: "\<forall>d\<in>set pre. \<forall>w. snd (snd (proc d w)) \<noteq> Some other_throwable"
    and nf_post: "\<forall>d\<in>set post. \<forall>w. snd (snd (proc d w)) \<noteq> Some other_throwable"
    using nf by simp_all
  have p1: "r1 = None \<and> calls w1 = calls w @ pre"
    using processAll_loop_traced_calls[OF nf_pre pre] .
  have b: "try_process (traced proc) data w1 = (data', ?w, None)"
    using thr by (simp add: try_process_def)
  have c2: "calls ?w = calls w1 @ [data]"
    using b by (rule try_process_traced_calls)
  obtain post' w3 r3 where l: "processAll_loop (traced proc) post ?w = (post', w3, r3)"
    by (cases "processAll_loop (traced proc) post ?w") auto
  have p3: "r3 = None \<and> calls w3 = calls ?w @ post"
    using processAll_loop_traced_calls[OF nf_post l] .
  have "processAll_loop (traced proc) (pre @ data # post) w = (pre' @ data' # post', w3, None)"
    using pre b l p1 p3 by (simp add: processAll_loop_append)
  then show ?thesis
    using l p1 c2 p3 by (simp add: processAll_def)
qed

text \<open>
  The theorem at work: of the elements 1, 0, 2, 3 the second throws a
  \<^verbatim>\<open>std::exception\<close>; one message reaches the error stream and all four elements are
  processed.
\<close>

theorem processAll_continues_after_std_exception_witness:
  "processAll_loop (traced (example_process (std_exception ''bad tick''))) [1]
      \<lparr>cout = [], cerr = [], calls = []\<rparr> =
      ([1], \<lparr>cout = ''tick'' @ endl, cerr = [], calls = [1]\<rparr>, None)
   \<and> traced (example_process (std_exception ''bad tick'')) 0
      \<lparr>cout = ''tick'' @ endl, cerr = [], calls = [1]\<rparr> =
      (0, \<lparr>cout = ''tick'' @ endl @ ''tick'' @ endl, cerr = [], calls = [1, 0]\<rparr>,
       Some (std_exception ''bad tick''))
   \<and> processAll (traced (example_process (std_exception ''bad tick'')))
        \<lparr>marketDataList = [1, 0, 2, 3]\<rparr> \<lparr>cout = [], cerr = [], calls = []\<rparr> =
      (\<lparr>marketDataList = [1, 0, 2, 3]\<rparr>,
       \<lparr>cout = ''tick'' @ endl @ ''tick'' @ endl @ ''tick'' @ endl @ ''tick'' @ endl,
        cerr = ''Exception while processing market data: bad tick'' @ endl,
        calls = [1, 0, 2, 3]\<rparr>, None)"
proof -
  let ?proc = "example_process (std_exception ''bad tick'')"
  have nf: "\<forall>d\<in>set ([1] @ 0 # [2, 3]). \<forall>w. snd (snd (?proc d w)) \<noteq> Some other_throwable"
    by (simp add: example_process_def)
  have pre: "processAll_loop (traced ?proc) [1] \<lparr>cout = [], cerr = [], calls = []\<rparr> =
      ([1], \<lparr>cout = ''tick'' @ endl, cerr = [], calls = [1]\<rparr>, None)"
    by (simp add: try_process_def traced_def example_process_def)
  have thr: "traced ?proc 0 \<lparr>cout = ''tick'' @ endl, cerr = [], calls = [1]\<rparr> =
      (0, \<lparr>cout = ''tick'' @ endl @ ''tick'' @ endl, cerr = [], calls = [1, 0]\<rparr>,
       Some (std_exception ''bad tick''))"
    by (simp add: traced_def example_process_def)
  show ?thesis
    using processAll_continues_after_std_exception[OF nf pre thr] pre thr
    by (simp add: processAll_def try_process_def traced_def example_process_def)
qed

text \<open>
  C3 as stated fails for an object that is not derived from \<^verbatim>\<open>std::exception\<close>: of the
  elements 1, 0, 2, 3 the second throws such an object; it leaves \<^verbatim>\<open>processAll\<close>,
  nothing is written to the error stream, and the elements 2 and 3 are not processed.
\<close>

theorem processAll_other_throwable_counterexample:
  "processAll (traced (example_process other_throwable))
      \<lparr>marketDataList = [1, 0, 2, 3]\<rparr> \<lparr>cout = [], cerr = [], calls = []\<rparr> =
     (\<lparr>marketDataList = [1, 0, 2, 3]\<rparr>,
      \<lparr>cout = ''tick'' @ endl @ ''tick'' @ endl, cerr = [], calls = [1, 0]\<rparr>,
      Some other_throwable)"
  by (simp add: processAll_def try_process_def traced_def example_process_def)

section \<open>Properties of the runs\<close>

lemma step_cases [consumes 1, case_names spawn spawned join joined consume return
    gen_bond gen_rate lock add_bond add_rate unlock]:
  assumes "step proc s a = Some (s', added)"
  obtains
    i where "a = Main" "main_pc s = Spawning i" "i < 5" "added = []"
      "s' = s\<lparr>threads := threads s @ [\<lparr>pc = Gen_Bond, bondData = None, interestRateData = None\<rparr>],
               main_pc := Spawning (i + 1)\<rparr>"
  | i where "a = Main" "main_pc s = Spawning i" "\<not> i < 5" "added = []"
      "s' = s\<lparr>main_pc := Joining 0\<rparr>"
  | j where "a = Main" "main_pc s = Joining j" "j < length (threads s)"
      "pc (threads s ! j) = Finished" "added = []" "s' = s\<lparr>main_pc := Joining (j + 1)\<rparr>"
  | j where "a = Main" "main_pc s = Joining j" "\<not> j < length (threads s)" "added = []"
      "s' = s\<lparr>main_pc := Consuming\<rparr>"
  | p w r where "a = Main" "main_pc s = Consuming" "added = []"
      "processAll proc (processor s) (streams s) = (p, w, r)"
      "s' = s\<lparr>processor := p, streams := w,
               main_pc := (if r = None then Returning else Terminated)\<rparr>"
  | "a = Main" "main_pc s = Returning" "added = []" "s' = s\<lparr>main_pc := Exited 0\<rparr>"
  | k v where "a = Worker k v" "k < length (threads s)" "pc (threads s ! k) = Gen_Bond"
      "added = []"
      "s' = s\<lparr>threads := (threads s)[k := (threads s ! k)\<lparr>pc := Gen_Rate,
                 bondData := Some (BondMarketData v)\<rparr>]\<rparr>"
  | k v where "a = Worker k v" "k < length (threads s)" "pc (threads s ! k) = Gen_Rate"
      "added = []"
      "s' = s\<lparr>threads := (threads s)[k := (threads s ! k)\<lparr>pc := Lock,
                 interestRateData := Some (InterestRateMarketData v)\<rparr>]\<rparr>"
  | k v where "a = Worker k v" "k < length (threads s)" "pc (threads s ! k) = Lock"
      "mtx s = None" "added = []"
      "s' = s\<lparr>mtx := Some k, threads := (threads s)[k := (threads s ! k)\<lparr>pc := Add_Bond\<rparr>]\<rparr>"
  | k v data where "a = Worker k v" "k < length (threads s)" "pc (threads s ! k) = Add_Bond"
      "bondData (threads s ! k) = Some data" "added = [(k, data)]"
      "s' = s\<lparr>processor := addData (processor s) data,
               threads := (threads s)[k := (threads s ! k)\<lparr>pc := Add_Rate, bondData := None\<rparr>]\<rparr>"
  | k v data where "a = Worker k v" "k < length (threads s)" "pc (threads s ! k) = Add_Rate"
      "interestRateData (threads s ! k) = Some data" "added = [(k, data)]"
      "s' = s\<lparr>processor := addData (processor s) data,
               threads := (threads s)[k := (threads s ! k)\<lparr>pc := Unlock,
                 interestRateData := None\<rparr>]\<rparr>"
  | k v where "a = Worker k v" "k < length (threads s)" "pc (threads s ! k) = Unlock"
      "added = []"
      "s' = s\<lparr>mtx := None, threads := (threads s)[k := (threads s ! k)\<lparr>pc := Finished\<rparr>]\<rparr>"
proof (cases a)
  case Main
  then obtain s1 where m: "main_step proc s = Some s1" and e: "s' = s1" "added = []"
    using assms by (auto simp: step_def split: option.splits)
  show ?thesis
  proof (cases "main_pc s")
    case (Spawning i)
    then show ?thesis using m e Main that(1)[of i] that(2)[of i]
      by (auto simp: main_step_def split: if_splits)
  next
    case (Joining j)
    then show ?thesis using m e Main that(3)[of j] that(4)[of j]
      by (auto simp: main_step_def split: if_splits)
  next
    case Consuming
    obtain p w r where pa: "processAll proc (processor s) (streams s) = (p, w, r)"
      by (cases "processAll proc (processor s) (streams s)") auto
    show ?thesis using m e Main Consuming pa that(5)[of p w r]
      by (auto simp: main_step_def split: option.splits)
  next
    case Returning
    then show ?thesis using m e Main that(6) by (auto simp: main_step_def)
  next
    case (Exited c)
    then show ?thesis using m by (simp add: main_step_def)
  next
    case Terminated
    then show ?thesis using m by (simp add: main_step_def)
  qed
next
  case (Worker k v)
  then have k: "k < length (threads s)"
    and w: "simulateMarketData_step k v s = Some (s', added)"
    using assms by (auto simp: step_def split: if_splits)
  show ?thesis
  proof (cases "pc (threads s ! k)")
    case Gen_Bond
    then show ?thesis using w k Worker that(7)[of k v]
      by (auto simp: simulateMarketData_step_def Let_def)
  next
    case Gen_Rate
    then show ?thesis using w k Worker that(8)[of k v]
      by (auto simp: simulateMarketData_step_def Let_def)
  next
    case Lock
    then show ?thesis using w k Worker that(9)[of k v]
      by (auto simp: simulateMarketData_step_def Let_def split: option.splits)
  next
    case Add_Bond
    then show ?thesis using w k Worker that(10)[of k v]
      by (auto simp: simulateMarketData_step_def Let_def split: option.splits)
  next
    case Add_Rate
    then show ?thesis using w k Worker that(11)[of k v]
      by (auto simp: simulateMarketData_step_def Let_def split: option.splits)
  next
    case Unlock
    then show ?thesis using w k Worker that(12)[of k v]
      by (auto simp: simulateMarketData_step_def Let_def)
  next
    case Finished
    then show ?thesis using w by (simp add: simulateMarketData_step_def Let_def)
  qed
qed

lemma mutex_holder:
  "mutex_inv s \<Longrightarrow> k < length (threads s) \<Longrightarrow> pc (threads s ! k) \<in> {Add_Bond, Add_Rate, Unlock}
     \<Longrightarrow> mtx s = Some k"
  by (simp add: mutex_inv_def)

lemma mutex_free:
  "mutex_inv s \<Longrightarrow> mtx s = None \<Longrightarrow> k < length (threads s)
     \<Longrightarrow> pc (threads s ! k) \<notin> {Add_Bond, Add_Rate, Unlock}"
  by (auto simp: mutex_inv_def)

lemma mutex_other:
  "mutex_inv s \<Longrightarrow> mtx s = Some k \<Longrightarrow> j < length (threads s) \<Longrightarrow> j \<noteq> k
     \<Longrightarrow> pc (threads s ! j) \<notin> {Add_Bond, Add_Rate, Unlock}"
  by (auto simp: mutex_inv_def)

lemma mutex_inv_step:
  assumes "step proc s a = Some (s', added)" "mutex_inv s"
  shows "mutex_inv s'"
  using assms
proof (cases rule: step_cases)
  case (lock k v)
  then show ?thesis
    using mutex_free[OF assms(2)]
    by (auto simp: mutex_inv_def nth_list_update)
next
  case (add_bond k v data)
  then show ?thesis
    using mutex_holder[OF assms(2), of k] mutex_other[OF assms(2), of k]
    by (auto simp: mutex_inv_def nth_list_update)
next
  case (add_rate k v data)
  then show ?thesis
    using mutex_holder[OF assms(2), of k] mutex_other[OF assms(2), of k]
    by (auto simp: mutex_inv_def nth_list_update)
next
  case (unlock k v)
  have h: "mtx s = Some k" using mutex_holder[OF assms(2), of k] unlock by simp
  show ?thesis
    using unlock h mutex_other[OF assms(2) h]
    by (auto simp: mutex_inv_def nth_list_update)
qed (use assms(2) in \<open>auto simp: mutex_inv_def nth_list_update nth_append\<close>)

lemma locals_inv_step:
  assumes "step proc s a = Some (s', added)" "locals_inv s"
  shows "locals_inv s'"
  using assms
  by (cases rule: step_cases) (auto simp: locals_inv_def nth_list_update nth_append)

lemma main_inv_step:
  assumes "step proc s a = Some (s', added)" "main_inv s"
  shows "main_inv s'"
  using assms
  by (cases rule: step_cases)
     (auto simp: main_inv_def nth_list_update nth_append less_Suc_eq split: main_pc.splits)


lemma paired_snoc2:
  "paired (r @ [e, e']) =
     (paired r \<and> fst e' = fst e \<and> is_bond (snd e) \<and> is_rate (snd e') \<and> fst e \<notin> fst ` set r)"
  by (induction r rule: paired.induct) auto

lemma locals_bond:
  "locals_inv s \<Longrightarrow> k < length (threads s) \<Longrightarrow> pc (threads s ! k) = Add_Bond
     \<Longrightarrow> bondData (threads s ! k) = Some data \<Longrightarrow> is_bond data"
  by (fastforce simp: locals_inv_def)

lemma locals_rate:
  "locals_inv s \<Longrightarrow> k < length (threads s) \<Longrightarrow> pc (threads s ! k) = Add_Rate
     \<Longrightarrow> interestRateData (threads s ! k) = Some data \<Longrightarrow> is_rate data"
  by (fastforce simp: locals_inv_def)

lemma log_inv_step:
  assumes st: "step proc s a = Some (s', added)"
    and mi: "mutex_inv s" and li: "locals_inv s" and lg: "log_inv s log"
  shows "log_inv s' (log @ added)"
  using st
proof (cases rule: step_cases)
  case (spawn i)
  then show ?thesis using lg mi
    by (auto simp: log_inv_def mutex_inv_def nth_append split: option.splits)
next
  case (spawned i)
  then show ?thesis using lg by (auto simp: log_inv_def split: option.splits)
next
  case (join j)
  then show ?thesis using lg by (auto simp: log_inv_def split: option.splits)
next
  case (joined j)
  then show ?thesis using lg by (auto simp: log_inv_def split: option.splits)
next
  case (consume p w r)
  then show ?thesis using lg by (auto simp: log_inv_def split: option.splits)
next
  case return
  then show ?thesis using lg by (auto simp: log_inv_def split: option.splits)
next
  case (gen_bond k v)
  then show ?thesis using lg mi
    by (auto simp: log_inv_def mutex_inv_def nth_list_update split: option.splits)
next
  case (gen_rate k v)
  then show ?thesis using lg mi
    by (auto simp: log_inv_def mutex_inv_def nth_list_update split: option.splits)
next
  case (lock k v)
  then show ?thesis using lg
    by (auto simp: log_inv_def nth_list_update split: option.splits)
next
  case (add_bond k v data)
  have h: "mtx s = Some k" using mutex_holder[OF mi, of k] add_bond by simp
  have b: "is_bond data" using locals_bond[OF li] add_bond by blast
  have p: "paired log" using lg h add_bond by (simp add: log_inv_def)
  have n: "k \<notin> fst ` set log" using lg add_bond by (simp add: log_inv_def)
  have o: "\<forall>j. (j \<in> fst ` set log) =
               (j < length (threads s) \<and> pc (threads s ! j) \<in> {Add_Rate, Unlock, Finished})"
    using lg by (simp add: log_inv_def)
  have l: "main_pc s \<noteq> Returning \<and> main_pc s \<noteq> Terminated \<and> (\<forall>c. main_pc s \<noteq> Exited c)
         \<longrightarrow> marketDataList (processor s) = map snd log"
    using lg by (simp add: log_inv_def)
  show ?thesis
    unfolding log_inv_def
  proof (intro conjI)
    show "main_pc s' \<noteq> Returning \<and> main_pc s' \<noteq> Terminated \<and> (\<forall>c. main_pc s' \<noteq> Exited c)
         \<longrightarrow> marketDataList (processor s') = map snd (log @ added)"
      using l add_bond by (simp add: addData_def)
    show "\<forall>j. (j \<in> fst ` set (log @ added)) =
               (j < length (threads s') \<and> pc (threads s' ! j) \<in> {Add_Rate, Unlock, Finished})"
      using o add_bond by (auto simp: nth_list_update)
    show "case mtx s' of
           None \<Rightarrow> paired (log @ added)
         | Some k \<Rightarrow>
             if pc (threads s' ! k) = Add_Rate
             then \<exists>r b. log @ added = r @ [(k, b)] \<and> is_bond b \<and> paired r \<and> k \<notin> fst ` set r
             else paired (log @ added)"
      using h b p n add_bond by simp
  qed
next
  case (add_rate k v data)
  have h: "mtx s = Some k" using mutex_holder[OF mi, of k] add_rate by simp
  have b: "is_rate data" using locals_rate[OF li] add_rate by blast
  obtain r b where p: "log = r @ [(k, b)]" "is_bond b" "paired r" "k \<notin> fst ` set r"
    using lg h add_rate by (auto simp: log_inv_def)
  have o: "\<forall>j. (j \<in> fst ` set log) =
               (j < length (threads s) \<and> pc (threads s ! j) \<in> {Add_Rate, Unlock, Finished})"
    using lg by (simp add: log_inv_def)
  have l: "main_pc s \<noteq> Returning \<and> main_pc s \<noteq> Terminated \<and> (\<forall>c. main_pc s \<noteq> Exited c)
         \<longrightarrow> marketDataList (processor s) = map snd log"
    using lg by (simp add: log_inv_def)
  have pl: "paired (log @ added)"
    using p b add_rate paired_snoc2[of r "(k, b)" "(k, data)"] by simp
  show ?thesis
    unfolding log_inv_def
  proof (intro conjI)
    show "main_pc s' \<noteq> Returning \<and> main_pc s' \<noteq> Terminated \<and> (\<forall>c. main_pc s' \<noteq> Exited c)
         \<longrightarrow> marketDataList (processor s') = map snd (log @ added)"
      using l add_rate by (simp add: addData_def)
    show "\<forall>j. (j \<in> fst ` set (log @ added)) =
               (j < length (threads s') \<and> pc (threads s' ! j) \<in> {Add_Rate, Unlock, Finished})"
      using o add_rate by (auto simp: nth_list_update)
    show "case mtx s' of
           None \<Rightarrow> paired (log @ added)
         | Some k \<Rightarrow>
             if pc (threads s' ! k) = Add_Rate
             then \<exists>r b. log @ added = r @ [(k, b)] \<and> is_bond b \<and> paired r \<and> k \<notin> fst ` set r
             else paired (log @ added)"
      using h pl add_rate by simp
  qed
next
  case (unlock k v)
  have h: "mtx s = Some k" using mutex_holder[OF mi, of k] unlock by simp
  show ?thesis using lg h unlock
    by (auto simp: log_inv_def nth_list_update split: option.splits)
qed


lemma inv_init: "inv init []"
  by (simp add: inv_def init_def mutex_inv_def locals_inv_def main_inv_def log_inv_def)

lemma inv_step:
  "inv s log \<Longrightarrow> step proc s a = Some (s', added) \<Longrightarrow> inv s' (log @ added)"
proof -
  assume i: "inv s log" and st: "step proc s a = Some (s', added)"
  have "mutex_inv s'" using mutex_inv_step[OF st] i by (simp add: inv_def)
  moreover have "locals_inv s'" using locals_inv_step[OF st] i by (simp add: inv_def)
  moreover have "main_inv s'" using main_inv_step[OF st] i by (simp add: inv_def)
  moreover have "log_inv s' (log @ added)" using log_inv_step[OF st] i by (simp add: inv_def)
  ultimately show ?thesis by (simp add: inv_def)
qed

lemma inv_run:
  "inv s log \<Longrightarrow> run proc (s, log) sched = Some (s', log') \<Longrightarrow> inv s' log'"
proof (induction sched arbitrary: s log)
  case Nil
  then show ?case by simp
next
  case (Cons a sched)
  from Cons.prems(2) obtain s1 added where
    st: "step proc s a = Some (s1, added)" and
    r: "run proc (s1, log @ added) sched = Some (s', log')"
    by (auto split: option.splits)
  show ?case using Cons.IH[OF inv_step[OF Cons.prems(1) st] r] .
qed

lemma run_append:
  "run proc c (xs @ ys) = (case run proc c xs of None \<Rightarrow> None | Some c' \<Rightarrow> run proc c' ys)"
proof (induction xs arbitrary: c)
  case Nil
  show ?case by simp
next
  case (Cons a xs)
  show ?case by (cases c) (simp add: Cons.IH split: option.splits)
qed

lemma paired_length: "paired log \<Longrightarrow> length log = 2 * card (fst ` set log)"
proof (induction log rule: paired.induct)
  case 1
  show ?case by simp
next
  case (2 e)
  then show ?case by simp
next
  case (3 e e' rest)
  then have "card (insert (fst e) (fst ` set rest)) = Suc (card (fst ` set rest))"
    by (simp add: card_insert_disjoint)
  with 3 show ?case by simp
qed

lemma paired_count:
  "paired log \<Longrightarrow> k \<in> fst ` set log \<Longrightarrow> length (filter (\<lambda>e. fst e = k) log) = 2"
proof (induction log rule: paired.induct)
  case 1
  then show ?case by simp
next
  case (2 e)
  then show ?case by simp
next
  case (3 e e' rest)
  show ?case
  proof (cases "fst e = k")
    case True
    have "fst e \<notin> fst ` set rest" using "3.prems"(1) by simp
    then have "\<forall>x\<in>set rest. fst x \<noteq> k"
      using True by (metis imageI)
    then have "filter (\<lambda>e. fst e = k) rest = []"
      by (simp add: filter_empty_conv)
    then show ?thesis using True 3 by simp
  next
    case False
    then show ?thesis using 3 by auto
  qed
qed

lemma paired_adjacent:
  "paired log \<Longrightarrow> k \<in> fst ` set log \<Longrightarrow>
     \<exists>i. Suc i < length log \<and> fst (log ! i) = k \<and> fst (log ! Suc i) = k
        \<and> is_bond (snd (log ! i)) \<and> is_rate (snd (log ! Suc i))
        \<and> (\<forall>j<length log. fst (log ! j) = k \<longrightarrow> j = i \<or> j = Suc i)"
proof (induction log rule: paired.induct)
  case 1
  then show ?case by simp
next
  case (2 e)
  then show ?case by simp
next
  case (3 e e' rest)
  show ?case
  proof (cases "fst e = k")
    case True
    have far: "\<forall>j<length (e # e' # rest). fst ((e # e' # rest) ! j) = k \<longrightarrow> j = 0 \<or> j = Suc 0"
    proof (intro allI impI)
      fix j assume j: "j < length (e # e' # rest)" and f: "fst ((e # e' # rest) ! j) = k"
      show "j = 0 \<or> j = Suc 0"
      proof (rule ccontr)
        assume "\<not> (j = 0 \<or> j = Suc 0)"
        then obtain j' where j': "j = Suc (Suc j')" by (cases j; cases "j - 1") auto
        then have "rest ! j' \<in> set rest" using j by simp
        then have "fst (rest ! j') \<in> fst ` set rest" by (rule imageI)
        then show False using f j' True 3 by simp
      qed
    qed
    show ?thesis
      by (rule exI[of _ 0]) (use True 3 far in simp)
  next
    case False
    then have "k \<in> fst ` set rest" using 3 by auto
    then obtain i where i: "Suc i < length rest" "fst (rest ! i) = k" "fst (rest ! Suc i) = k"
      "is_bond (snd (rest ! i))" "is_rate (snd (rest ! Suc i))"
      "\<forall>j<length rest. fst (rest ! j) = k \<longrightarrow> j = i \<or> j = Suc i"
      using 3 by auto
    have far: "\<forall>j<length (e # e' # rest). fst ((e # e' # rest) ! j) = k \<longrightarrow>
        j = Suc (Suc i) \<or> j = Suc (Suc (Suc i))"
    proof (intro allI impI)
      fix j assume j: "j < length (e # e' # rest)" and f: "fst ((e # e' # rest) ! j) = k"
      have "j \<noteq> 0" "j \<noteq> Suc 0" using f False 3 by (auto intro: ccontr)
      then obtain j' where j': "j = Suc (Suc j')" by (cases j; cases "j - 1") auto
      then have "j' = i \<or> j' = Suc i" using i(6) j f by simp
      then show "j = Suc (Suc i) \<or> j = Suc (Suc (Suc i))" using j' by simp
    qed
    show ?thesis
      by (rule exI[of _ "Suc (Suc i)"]) (use i far in simp)
  qed
qed

lemma inv_joined:
  assumes "inv s log" and "main_pc s = Consuming"
  shows "paired log" and "fst ` set log = {..<5}"
    and "marketDataList (processor s) = map snd log"
proof -
  have len: "length (threads s) = 5" and fin: "\<forall>k<5. pc (threads s ! k) = Finished"
    using assms by (simp_all add: inv_def main_inv_def)
  have "mtx s = None"
  proof (cases "mtx s")
    case None
    then show ?thesis .
  next
    case (Some k)
    then have "k < 5" "pc (threads s ! k) \<in> {Add_Bond, Add_Rate, Unlock}"
      using assms(1) len by (auto simp: inv_def mutex_inv_def)
    then show ?thesis using fin by auto
  qed
  then show "paired log" using assms(1) by (simp add: inv_def log_inv_def)
  show "fst ` set log = {..<5}"
    using assms(1) len fin by (auto simp: inv_def log_inv_def)
  show "marketDataList (processor s) = map snd log"
    using assms by (simp add: inv_def log_inv_def)
qed

lemma run_example:
  "run proc (init, []) example_schedule = Some (example_joined, example_log)"
  by (simp add: example_schedule_def example_log_def example_joined_def init_def step_def
      main_step_def simulateMarketData_step_def addData_def Let_def numeral_eq_Suc)

text \<open>
  C1. In every run, when \<^verbatim>\<open>main\<close> has joined the threads and is about to call
  \<^verbatim>\<open>processAll\<close>, the processor holds exactly ten elements: they are the elements of
  the calls of \<^verbatim>\<open>addData\<close> made by the threads, two calls by each of the five threads
  and none by anything else.
\<close>

theorem collector_holds_ten_after_join:
  assumes "run proc (init, []) sched = Some (s, log)" and "main_pc s = Consuming"
  shows "length (marketDataList (processor s)) = 10
       \<and> marketDataList (processor s) = map snd log
       \<and> (\<forall>k<5. length (filter (\<lambda>e. fst e = k) log) = 2)
       \<and> (\<forall>e\<in>set log. fst e < 5)"
proof -
  have i: "inv s log" using inv_run[OF inv_init assms(1)] .
  note j = inv_joined[OF i assms(2)]
  have "length log = 10" using paired_length[OF j(1)] j(2) by simp
  moreover have "\<forall>k<5. length (filter (\<lambda>e. fst e = k) log) = 2"
    using paired_count[OF j(1)] j(2) by simp
  moreover have "\<forall>e\<in>set log. fst e < 5" using j(2) by auto
  ultimately show ?thesis using j(3) by simp
qed

theorem collector_holds_ten_after_join_witness:
  "run (process (\<lambda>x. x)) (init, []) example_schedule = Some (example_joined, example_log)
   \<and> main_pc example_joined = Consuming
   \<and> length (marketDataList (processor example_joined)) = 10
   \<and> length (filter (\<lambda>e. fst e = 3) example_log) = 2"
proof -
  have r: "run (process (\<lambda>x. x)) (init, []) example_schedule = Some (example_joined, example_log)"
    by (rule run_example)
  have c: "main_pc example_joined = Consuming" by (simp add: example_joined_def)
  show ?thesis using collector_holds_ten_after_join[OF r c] r c
    by (simp add: example_log_def)
qed

text \<open>
  C2. In every run, when \<^verbatim>\<open>main\<close> has joined the threads, the two elements that a
  thread \<open>k\<close> appended stand at two adjacent positions \<open>i\<close> and \<open>i + 1\<close> of the list of
  the processor, and no other position holds an element appended by \<open>k\<close>; so no
  element of another thread stands between them. The position \<open>j\<close> of the list holds
  the element of the \<open>j\<close>-th call of \<^verbatim>\<open>addData\<close>, made by the thread \<open>fst (log ! j)\<close>.
\<close>

theorem worker_pair_adjacent:
  assumes "run proc (init, []) sched = Some (s, log)" and "main_pc s = Consuming" and "k < 5"
  shows "marketDataList (processor s) = map snd log
       \<and> (\<exists>i. Suc i < length log \<and> fst (log ! i) = k \<and> fst (log ! Suc i) = k
              \<and> (\<forall>j<length log. fst (log ! j) = k \<longrightarrow> j = i \<or> j = Suc i))"
proof -
  have i: "inv s log" using inv_run[OF inv_init assms(1)] .
  note j = inv_joined[OF i assms(2)]
  have "k \<in> fst ` set log" using j(2) assms(3) by simp
  from paired_adjacent[OF j(1) this] j(3) show ?thesis by blast
qed

text \<open>In the example, thread 4 appended the elements at the positions 4 and 5.\<close>

theorem worker_pair_adjacent_witness:
  "run (process (\<lambda>x. x)) (init, []) example_schedule = Some (example_joined, example_log)
   \<and> main_pc example_joined = Consuming \<and> (4::nat) < 5
   \<and> marketDataList (processor example_joined) = map snd example_log
   \<and> fst (example_log ! 4) = 4 \<and> fst (example_log ! 5) = 4"
proof -
  have r: "run (process (\<lambda>x. x)) (init, []) example_schedule = Some (example_joined, example_log)"
    by (rule run_example)
  have c: "main_pc example_joined = Consuming" by (simp add: example_joined_def)
  have k: "(4::nat) < 5" by simp
  show ?thesis using worker_pair_adjacent[OF r c k] r c
    by (simp add: example_log_def)
qed

lemma is_bond_conv: "is_bond d = (\<exists>x. d = BondMarketData x)"
  by (cases d) simp_all

lemma is_rate_conv: "is_rate d = (\<exists>y. d = InterestRateMarketData y)"
  by (cases d) simp_all

text \<open>
  C10. In every run, when \<^verbatim>\<open>main\<close> has joined the threads, every thread \<open>k\<close> has
  two adjacent elements in the list of the processor, and the first of them is its bond
  and the second is its interest rate.
\<close>

theorem bond_precedes_rate_in_pair:
  assumes "run proc (init, []) sched = Some (s, log)" and "main_pc s = Consuming" and "k < 5"
  shows "\<exists>i x y. Suc i < length (marketDataList (processor s))
       \<and> fst (log ! i) = k \<and> fst (log ! Suc i) = k
       \<and> marketDataList (processor s) ! i = BondMarketData x
       \<and> marketDataList (processor s) ! Suc i = InterestRateMarketData y"
proof -
  have i: "inv s log" using inv_run[OF inv_init assms(1)] .
  note j = inv_joined[OF i assms(2)]
  have "k \<in> fst ` set log" using j(2) assms(3) by simp
  from paired_adjacent[OF j(1) this] obtain i where
    i: "Suc i < length log" "fst (log ! i) = k" "fst (log ! Suc i) = k"
       "is_bond (snd (log ! i))" "is_rate (snd (log ! Suc i))"
    by blast
  from i(4,5) obtain x y where
    "snd (log ! i) = BondMarketData x" "snd (log ! Suc i) = InterestRateMarketData y"
    by (auto simp: is_bond_conv is_rate_conv)
  then show ?thesis using i(1,2,3) j(3) by auto
qed

text \<open>In the example, thread 0 appended its bond at position 2 and its rate at position 3.\<close>

theorem bond_precedes_rate_in_pair_witness:
  "run (process (\<lambda>x. x)) (init, []) example_schedule = Some (example_joined, example_log)
   \<and> main_pc example_joined = Consuming \<and> (0::nat) < 5
   \<and> fst (example_log ! 2) = 0 \<and> fst (example_log ! 3) = 0
   \<and> marketDataList (processor example_joined) ! 2 = BondMarketData ''57.3''
   \<and> marketDataList (processor example_joined) ! 3 = InterestRateMarketData ''1.5''"
proof -
  have r: "run (process (\<lambda>x. x)) (init, []) example_schedule = Some (example_joined, example_log)"
    by (rule run_example)
  have c: "main_pc example_joined = Consuming" by (simp add: example_joined_def)
  have k: "(0::nat) < 5" by simp
  show ?thesis using bond_precedes_rate_in_pair[OF r c k] r c
    by (simp add: example_log_def example_joined_def)
qed

lemma step_list:
  assumes i: "inv s log" and st: "step (process fmt) s a = Some (s', added)"
  shows "marketDataList (processor s') = marketDataList (processor s) @ map snd added
       \<and> (joined (main_pc s) \<longrightarrow> added = [] \<and> joined (main_pc s'))"
proof -
  have fin: "joined (main_pc s) \<Longrightarrow> k < length (threads s) \<Longrightarrow> pc (threads s ! k) = Finished" for k
    using i by (auto simp: inv_def main_inv_def split: main_pc.splits)
  from st show ?thesis
  proof (cases rule: step_cases)
    case (spawn i)
    then show ?thesis by simp
  next
    case (spawned i)
    then show ?thesis by simp
  next
    case (join j)
    then show ?thesis by simp
  next
    case (joined j)
    then show ?thesis by simp
  next
    case (consume p w r)
    then show ?thesis by (simp add: processAll_process)
  next
    case return
    then show ?thesis by simp
  next
    case (gen_bond k v)
    then show ?thesis using fin[of k] by auto
  next
    case (gen_rate k v)
    then show ?thesis using fin[of k] by auto
  next
    case (lock k v)
    then show ?thesis using fin[of k] by auto
  next
    case (add_bond k v data)
    then show ?thesis using fin[of k] by (auto simp: addData_def)
  next
    case (add_rate k v data)
    then show ?thesis using fin[of k] by (auto simp: addData_def)
  next
    case (unlock k v)
    then show ?thesis using fin[of k] by auto
  qed
qed

lemma run_list:
  assumes "inv s log" and "run (process fmt) (s, log) sched = Some (s', log')"
  shows "(\<exists>added. log' = log @ added
            \<and> marketDataList (processor s') = marketDataList (processor s) @ map snd added)
       \<and> (joined (main_pc s) \<longrightarrow> marketDataList (processor s') = marketDataList (processor s))"
  using assms
proof (induction sched arbitrary: s log)
  case Nil
  then show ?case by simp
next
  case (Cons a sched)
  from Cons.prems(2) obtain s1 added where
    st: "step (process fmt) s a = Some (s1, added)" and
    r: "run (process fmt) (s1, log @ added) sched = Some (s', log')"
    by (auto split: option.splits)
  note l = step_list[OF Cons.prems(1) st]
  note ih = Cons.IH[OF inv_step[OF Cons.prems(1) st] r]
  from ih obtain added' where a': "log' = (log @ added) @ added'"
    "marketDataList (processor s') = marketDataList (processor s1) @ map snd added'"
    by blast
  have "log' = log @ (added @ added') \<and>
      marketDataList (processor s') = marketDataList (processor s) @ map snd (added @ added')"
    using a' l by simp
  then have 1: "\<exists>added. log' = log @ added
            \<and> marketDataList (processor s') = marketDataList (processor s) @ map snd added"
    by blast
  have 2: "joined (main_pc s) \<longrightarrow> marketDataList (processor s') = marketDataList (processor s)"
    using l ih by auto
  show ?case using 1 2 by simp
qed

text \<open>
  C7. A call of \<^verbatim>\<open>addData\<close> yields the old list with the element appended. Between
  two points of a run of the program, the list of the processor at the later point is
  the list at the earlier point, unchanged, followed by the elements of the calls of
  \<^verbatim>\<open>addData\<close> made in between: no element is removed or moved. From the moment
  \<^verbatim>\<open>main\<close> has joined the threads the list does not change any more, the call of
  \<^verbatim>\<open>processAll\<close> included.
\<close>

theorem collector_only_grows:
  assumes "run (process fmt) (init, []) sched = Some (s, log)"
      and "run (process fmt) (s, log) sched' = Some (s', log')"
  shows "marketDataList (addData p data) = marketDataList p @ [data]
       \<and> (\<exists>added. log' = log @ added
            \<and> marketDataList (processor s') = marketDataList (processor s) @ map snd added)
       \<and> (joined (main_pc s) \<longrightarrow> marketDataList (processor s') = marketDataList (processor s))"
  using run_list[OF inv_run[OF inv_init assms(1)] assms(2)] by (simp add: addData_def)


text \<open>
  In the example the list grows from empty to the ten elements up to the joins, and
  \<^verbatim>\<open>processAll\<close> and the return leave it as it is.
\<close>

theorem collector_only_grows_witness:
  "run (process (\<lambda>x. x)) (init, []) [] = Some (init, [])
   \<and> run (process (\<lambda>x. x)) (init, []) example_schedule = Some (example_joined, example_log)
   \<and> marketDataList (processor example_joined) =
       marketDataList (processor (init :: string state)) @ map snd example_log
   \<and> joined (main_pc example_joined)
   \<and> run (process (\<lambda>x. x)) (example_joined, example_log) [Main, Main] =
       Some (example_exited
          \<lparr>cout = concat (map (\<lambda>d. documented_line (\<lambda>x. x) d @ endl) (map snd example_log)),
           cerr = []\<rparr>, example_log)
   \<and> marketDataList (processor (example_exited
          \<lparr>cout = concat (map (\<lambda>d. documented_line (\<lambda>x. x) d @ endl) (map snd example_log)),
           cerr = []\<rparr>)) = marketDataList (processor example_joined)"
proof -
  let ?w = "\<lparr>cout = concat (map (\<lambda>d. documented_line (\<lambda>x. x) d @ endl) (map snd example_log)),
           cerr = []\<rparr>"
  have r0: "run (process (\<lambda>x. x)) (init, []) [] = Some (init :: string state, [])" by simp
  have r1: "run (process (\<lambda>x. x)) (init, []) example_schedule = Some (example_joined, example_log)"
    by (rule run_example)
  have r2: "run (process (\<lambda>x. x)) (example_joined, example_log) [Main, Main] =
       Some (example_exited ?w, example_log)"
    by (simp add: step_def main_step_def processAll_process example_joined_def example_exited_def)
  have j: "joined (main_pc example_joined)" by (simp add: example_joined_def)
  note t1 = collector_only_grows[OF r0 r1, of "processor init" "BondMarketData []"]
  note t2 = collector_only_grows[OF r1 r2, of "processor init" "BondMarketData []"]
  have a: "marketDataList (processor example_joined) =
       marketDataList (processor (init :: string state)) @ map snd example_log"
    using t1 by auto
  have b: "marketDataList (processor (example_exited ?w)) =
       marketDataList (processor example_joined)"
    using t2 j by blast
  show ?thesis
    by (intro conjI) (rule r0 r1 a j r2 b)+
qed

text \<open>
  C9. Whenever \<^verbatim>\<open>main\<close> returns, the exit code is 0. When \<^verbatim>\<open>main\<close> has joined the
  threads and \<^verbatim>\<open>processAll\<close> returns normally, whatever the calls of \<^verbatim>\<open>process()\<close>
  threw and the handler caught, the program goes on to return 0.
\<close>

theorem exit_code_zero:
  assumes "run proc (init, []) sched = Some (s, log)"
  shows "(main_pc s = Exited c \<longrightarrow> c = 0)
       \<and> (main_pc s = Consuming \<longrightarrow>
            snd (snd (processAll proc (processor s) (streams s))) = None \<longrightarrow>
            (\<exists>s'. run proc (init, []) (sched @ [Main, Main]) = Some (s', log)
                 \<and> main_pc s' = Exited 0))"
proof -
  have i: "inv s log" using inv_run[OF inv_init assms] .
  have 1: "main_pc s = Exited c \<longrightarrow> c = 0"
    using i by (auto simp: inv_def main_inv_def)
  have 2: "\<exists>s'. run proc (init, []) (sched @ [Main, Main]) = Some (s', log)
                 \<and> main_pc s' = Exited 0"
    if c: "main_pc s = Consuming"
      and n: "snd (snd (processAll proc (processor s) (streams s))) = None"
  proof -
    obtain p w where pa: "processAll proc (processor s) (streams s) = (p, w, None)"
      using n by (cases "processAll proc (processor s) (streams s)") auto
    have "run proc (s, log) [Main, Main] =
        Some (s\<lparr>processor := p, streams := w, main_pc := Exited 0\<rparr>, log)"
      using c pa by (simp add: step_def main_step_def)
    then show ?thesis using assms by (simp add: run_append)
  qed
  show ?thesis using 1 2 by blast
qed

text \<open>
  In the example with the \<^verbatim>\<open>process()\<close> that fails on every bond, five messages
  reach the error stream and the program returns 0.
\<close>

theorem exit_code_zero_witness:
  "run example_failing (init, []) example_schedule = Some (example_joined, example_log)
   \<and> main_pc example_joined = Consuming
   \<and> snd (snd (processAll example_failing (processor example_joined) (streams example_joined)))
       = None
   \<and> run example_failing (init, []) (example_schedule @ [Main, Main]) =
       Some (example_exited
          \<lparr>cout = ''Processing Interest Rate Market Data: Rate = 3.75'' @ endl
                @ ''Processing Interest Rate Market Data: Rate = 1.5'' @ endl
                @ ''Processing Interest Rate Market Data: Rate = 100'' @ endl
                @ ''Processing Interest Rate Market Data: Rate = 64.1'' @ endl
                @ ''Processing Interest Rate Market Data: Rate = 7'' @ endl,
           cerr = concat (replicate 5
                (''Exception while processing market data: stale price'' @ endl))\<rparr>,
          example_log)"
proof -
  have r: "run example_failing (init, []) example_schedule = Some (example_joined, example_log)"
    by (rule run_example)
  have c: "main_pc example_joined = Consuming" by (simp add: example_joined_def)
  have p: "processAll example_failing (processor example_joined) (streams example_joined) =
      (processor example_joined,
       \<lparr>cout = ''Processing Interest Rate Market Data: Rate = 3.75'' @ endl
                @ ''Processing Interest Rate Market Data: Rate = 1.5'' @ endl
                @ ''Processing Interest Rate Market Data: Rate = 100'' @ endl
                @ ''Processing Interest Rate Market Data: Rate = 64.1'' @ endl
                @ ''Processing Interest Rate Market Data: Rate = 7'' @ endl,
           cerr = concat (replicate 5
                (''Exception while processing market data: stale price'' @ endl))\<rparr>, None)"
    by (simp add: processAll_def try_process_def example_joined_def example_log_def
        example_failing_def eval_nat_numeral)
  have e: "run example_failing (example_joined, example_log) [Main, Main] =
      Some (example_exited
          \<lparr>cout = ''Processing Interest Rate Market Data: Rate = 3.75'' @ endl
                @ ''Processing Interest Rate Market Data: Rate = 1.5'' @ endl
                @ ''Processing Interest Rate Market Data: Rate = 100'' @ endl
                @ ''Processing Interest Rate Market Data: Rate = 64.1'' @ endl
                @ ''Processing Interest Rate Market Data: Rate = 7'' @ endl,
           cerr = concat (replicate 5
                (''Exception while processing market data: stale price'' @ endl))\<rparr>,
          example_log)"
    using c p by (simp add: step_def main_step_def example_exited_def)
  show ?thesis
    using exit_code_zero[OF r, of 0] r c p e by (simp add: run_append)
qed

section \<open>Every run comes to an end\<close>

text \<open>
  As long as \<^verbatim>\<open>main\<close> has neither returned nor been terminated, some thread can
  move: the program has no deadlock. A thread that waits for the mutex waits for a thread
  between \<open>Lock\<close> and \<open>Unlock\<close>, which can move.
\<close>

lemma worker_can_move:
  assumes mi: "mutex_inv s" and li: "locals_inv s" and k: "k < length (threads s)"
    and nf: "pc (threads s ! k) \<noteq> Finished"
  shows "\<exists>j s' added. step proc s (Worker j v) = Some (s', added)"
proof (cases "pc (threads s ! k) = Lock \<and> mtx s \<noteq> None")
  case False
  have b: "pc (threads s ! k) = Add_Bond \<Longrightarrow> \<exists>d. bondData (threads s ! k) = Some d"
    using li k by (fastforce simp: locals_inv_def)
  have r: "pc (threads s ! k) = Add_Rate \<Longrightarrow> \<exists>d. interestRateData (threads s ! k) = Some d"
    using li k by (fastforce simp: locals_inv_def)
  have "\<exists>s' added. step proc s (Worker k v) = Some (s', added)"
    using False nf k b r
    by (cases "pc (threads s ! k)")
       (auto simp: step_def simulateMarketData_step_def Let_def split: option.splits)
  then show ?thesis by blast
next
  case True
  then obtain m where m: "mtx s = Some m" by auto
  then have ml: "m < length (threads s)"
    and mp: "pc (threads s ! m) \<in> {Add_Bond, Add_Rate, Unlock}"
    using mi by (auto simp: mutex_inv_def)
  have b: "pc (threads s ! m) = Add_Bond \<Longrightarrow> \<exists>d. bondData (threads s ! m) = Some d"
    using li ml by (fastforce simp: locals_inv_def)
  have r: "pc (threads s ! m) = Add_Rate \<Longrightarrow> \<exists>d. interestRateData (threads s ! m) = Some d"
    using li ml by (fastforce simp: locals_inv_def)
  have "\<exists>s' added. step proc s (Worker m v) = Some (s', added)"
    using mp ml b r
    by (cases "pc (threads s ! m)")
       (auto simp: step_def simulateMarketData_step_def Let_def split: option.splits)
  then show ?thesis by blast
qed

lemma no_deadlock:
  assumes "run proc (init, []) sched = Some (s, log)"
  shows "(\<exists>c. main_pc s = Exited c) \<or> main_pc s = Terminated
       \<or> (\<exists>a s' added. step proc s a = Some (s', added))"
proof -
  have i: "inv s log" using inv_run[OF inv_init assms] .
  then have mi: "mutex_inv s" and li: "locals_inv s" by (simp_all add: inv_def)
  show ?thesis
  proof (cases "main_pc s")
    case (Spawning n)
    then have "\<exists>s'. main_step proc s = Some s'" by (simp add: main_step_def)
    then have "\<exists>s' added. step proc s Main = Some (s', added)" by (auto simp: step_def)
    then show ?thesis by blast
  next
    case (Joining j)
    show ?thesis
    proof (cases "j < length (threads s) \<and> pc (threads s ! j) \<noteq> Finished")
      case True
      from worker_can_move[OF mi li, of j proc undefined] True show ?thesis by blast
    next
      case False
      then have "\<exists>s'. main_step proc s = Some s'" using Joining by (auto simp: main_step_def)
      then have "\<exists>s' added. step proc s Main = Some (s', added)" by (auto simp: step_def)
      then show ?thesis by blast
    qed
  next
    case Consuming
    then have "\<exists>s'. main_step proc s = Some s'"
      by (auto simp: main_step_def split: prod.splits option.splits)
    then have "\<exists>s' added. step proc s Main = Some (s', added)" by (auto simp: step_def)
    then show ?thesis by blast
  next
    case Returning
    then have "\<exists>s'. main_step proc s = Some s'" by (simp add: main_step_def)
    then have "\<exists>s' added. step proc s Main = Some (s', added)" by (auto simp: step_def)
    then show ?thesis by blast
  next
    case (Exited c)
    then show ?thesis by simp
  next
    case Terminated
    then show ?thesis by simp
  qed
qed


text \<open>
  Every step adds to the progress, which is at most 44: no schedule of the program is
  longer than 44 steps.
\<close>

lemma worker_progress_le: "worker_progress q \<le> 6"
  by (cases q) simp_all

lemma sum_list_worker_progress:
  "sum_list (map (\<lambda>t. worker_progress (pc t)) ts) \<le> 6 * length ts"
proof (induction ts)
  case Nil
  show ?case by simp
next
  case (Cons t ts)
  then show ?case using worker_progress_le[of "pc t"] by simp
qed

lemma sum_list_worker_update:
  assumes "k < length ts" and "worker_progress (pc t') = Suc (worker_progress (pc (ts ! k)))"
  shows "sum_list (map (\<lambda>t. worker_progress (pc t)) (ts[k := t'])) =
         Suc (sum_list (map (\<lambda>t. worker_progress (pc t)) ts))"
  using assms
proof (induction ts arbitrary: k)
  case Nil
  then show ?case by simp
next
  case (Cons t ts)
  then show ?case by (cases k) simp_all
qed

lemma progress_step:
  assumes mi: "main_inv s" and st: "step proc s a = Some (s', added)"
  shows "progress s < progress s'"
  using st
proof (cases rule: step_cases)
  case (spawn i)
  then show ?thesis by (simp add: progress_def)
next
  case (spawned i)
  then show ?thesis using mi by (simp add: progress_def main_inv_def)
next
  case (join j)
  then show ?thesis by (simp add: progress_def)
next
  case (joined j)
  then show ?thesis using mi by (simp add: progress_def main_inv_def)
next
  case (consume p w r)
  then show ?thesis by (simp add: progress_def)
next
  case return
  then show ?thesis by (simp add: progress_def)
next
  case (gen_bond k v)
  then show ?thesis by (simp add: progress_def sum_list_worker_update)
next
  case (gen_rate k v)
  then show ?thesis by (simp add: progress_def sum_list_worker_update)
next
  case (lock k v)
  then show ?thesis by (simp add: progress_def sum_list_worker_update)
next
  case (add_bond k v data)
  then show ?thesis by (simp add: progress_def sum_list_worker_update)
next
  case (add_rate k v data)
  then show ?thesis by (simp add: progress_def sum_list_worker_update)
next
  case (unlock k v)
  then show ?thesis by (simp add: progress_def sum_list_worker_update)
qed

lemma progress_run:
  "inv s log \<Longrightarrow> run proc (s, log) sched = Some (s', log')
     \<Longrightarrow> progress s + length sched \<le> progress s'"
proof (induction sched arbitrary: s log)
  case Nil
  then show ?case by simp
next
  case (Cons a sched)
  from Cons.prems(2) obtain s1 added where
    st: "step proc s a = Some (s1, added)" and
    r: "run proc (s1, log @ added) sched = Some (s', log')"
    by (auto split: option.splits)
  have "progress s < progress s1"
    using progress_step[OF _ st] Cons.prems(1) by (simp add: inv_def)
  moreover have "progress s1 + length sched \<le> progress s'"
    using Cons.IH[OF inv_step[OF Cons.prems(1) st] r] .
  ultimately show ?case by simp
qed

lemma progress_bound:
  assumes "main_inv s"
  shows "progress s \<le> 44"
proof -
  have l: "length (threads s) \<le> 5" and m: "main_progress (main_pc s) \<le> 14"
    using assms by (auto simp: main_inv_def split: main_pc.splits)
  have "sum_list (map (\<lambda>t. worker_progress (pc t)) (threads s)) \<le> 6 * length (threads s)"
    by (rule sum_list_worker_progress)
  then show ?thesis using l m by (simp add: progress_def)
qed

lemma runs_are_finite:
  assumes "run proc (init, []) sched = Some (s :: 'd state, log)"
  shows "length sched \<le> 44"
proof -
  have "inv s log" using inv_run[OF inv_init assms] .
  then have "main_inv s" by (simp add: inv_def)
  then have "progress s \<le> 44" by (rule progress_bound)
  moreover have "progress (init :: 'd state) + length sched \<le> progress s"
    using progress_run[OF inv_init assms] .
  ultimately show ?thesis by (simp add: progress_def init_def)
qed

section \<open>The numbers that the threads store\<close>

lemma run_example_draws:
  "run proc (init, []) example_draws_schedule = Some (example_draws_joined, example_draws_log)"
  by (simp add: example_draws_schedule_def example_draws_log_def example_draws_joined_def
      init_def step_def main_step_def simulateMarketData_step_def addData_def Let_def
      numeral_eq_Suc)

lemma draws_example:
  "draws proc init example_draws_schedule =
     [57, 12, 3, 2, 99, 100, 42, 8, 64, 1 :: int]"
  by (simp add: example_draws_schedule_def draw_def
      init_def step_def main_step_def simulateMarketData_step_def addData_def Let_def
      numeral_eq_Suc)


lemma values_in_step:
  assumes vi: "values_in P s log" and st: "step proc s a = Some (s', added)"
    and dr: "\<forall>v\<in>set (draw s a). P v"
  shows "values_in P s' (log @ added)"
proof -
  have lg: "\<forall>e\<in>set log. P (stored_value (snd e))"
    and tb: "\<And>t data. t \<in> set (threads s) \<Longrightarrow> bondData t = Some data \<Longrightarrow> P (stored_value data)"
    and tr: "\<And>t data. t \<in> set (threads s) \<Longrightarrow> interestRateData t = Some data
               \<Longrightarrow> P (stored_value data)"
    using vi by (auto simp: values_in_def)
  have upd: "t \<in> set ((threads s)[k := t']) \<Longrightarrow> t = t' \<or> t \<in> set (threads s)" for t k t'
    using set_update_subset_insert[of "threads s" k t'] by auto
  from st show ?thesis
  proof (cases rule: step_cases)
    case (spawn i)
    then show ?thesis using lg tb tr by (auto simp: values_in_def)
  next
    case (spawned i)
    then show ?thesis using lg tb tr by (auto simp: values_in_def)
  next
    case (join j)
    then show ?thesis using lg tb tr by (auto simp: values_in_def)
  next
    case (joined j)
    then show ?thesis using lg tb tr by (auto simp: values_in_def)
  next
    case (consume p w r)
    then show ?thesis using lg tb tr by (auto simp: values_in_def)
  next
    case return
    then show ?thesis using lg tb tr by (auto simp: values_in_def)
  next
    case (gen_bond k v)
    then have pv: "P v" using dr by (simp add: draw_def)
    have m: "threads s ! k \<in> set (threads s)" using gen_bond by simp
    show ?thesis
      unfolding values_in_def using gen_bond lg pv tb[OF m] tr[OF m] tb tr
      by (auto dest!: upd)
  next
    case (gen_rate k v)
    then have pv: "P v" using dr by (simp add: draw_def)
    have m: "threads s ! k \<in> set (threads s)" using gen_rate by simp
    show ?thesis
      unfolding values_in_def using gen_rate lg pv tb[OF m] tr[OF m] tb tr
      by (auto dest!: upd)
  next
    case (lock k v)
    have m: "threads s ! k \<in> set (threads s)" using lock by simp
    show ?thesis
      unfolding values_in_def using lock lg tb[OF m] tr[OF m] tb tr
      by (auto dest!: upd)
  next
    case (add_bond k v data)
    have m: "threads s ! k \<in> set (threads s)" using add_bond by simp
    show ?thesis
      unfolding values_in_def using add_bond lg tb[OF m] tr[OF m] tb tr
      by (auto dest!: upd)
  next
    case (add_rate k v data)
    have m: "threads s ! k \<in> set (threads s)" using add_rate by simp
    show ?thesis
      unfolding values_in_def using add_rate lg tb[OF m] tr[OF m] tb tr
      by (auto dest!: upd)
  next
    case (unlock k v)
    have m: "threads s ! k \<in> set (threads s)" using unlock by simp
    show ?thesis
      unfolding values_in_def using unlock lg tb[OF m] tr[OF m] tb tr
      by (auto dest!: upd)
  qed
qed

lemma values_in_run:
  "values_in P s log \<Longrightarrow> run proc (s, log) sched = Some (s', log')
     \<Longrightarrow> \<forall>v\<in>set (draws proc s sched). P v \<Longrightarrow> values_in P s' log'"
proof (induction sched arbitrary: s log)
  case Nil
  then show ?case by simp
next
  case (Cons a sched)
  from Cons.prems(2) obtain s1 added where
    st: "step proc s a = Some (s1, added)" and
    r: "run proc (s1, log @ added) sched = Some (s', log')"
    by (auto split: option.splits)
  have d1: "\<forall>v\<in>set (draw s a). P v" and d2: "\<forall>v\<in>set (draws proc s1 sched). P v"
    using Cons.prems(3) st by simp_all
  show ?case using Cons.IH[OF values_in_step[OF Cons.prems(1) st d1] r d2] .
qed

lemma values_in_init: "values_in P init []"
  by (simp add: values_in_def init_def)

text \<open>
  C5. In every run in which every number drawn from \<^verbatim>\<open>dis(gen)\<close> lies in the range
  of the distribution \<^verbatim>\<open>dis(1.0, 100.0)\<close>, every element that a thread has made, in
  the list of the processor or still held by the thread, stores one of the numbers drawn,
  and the number \<open>v\<close> it stores satisfies \<open>1 \<le> v\<close> and \<open>v \<le> 100\<close>.
\<close>

theorem stored_values_within_bounds:
  assumes r: "run (process fmt) (init, []) sched = Some (s, log)"
    and c: "\<forall>v\<in>set (draws (process fmt) init sched). in_range dis v"
  shows "(\<forall>data\<in>set (marketDataList (processor s)).
            stored_value data \<in> set (draws (process fmt) init sched)
          \<and> 1 \<le> stored_value data \<and> stored_value data \<le> 100)
       \<and> (\<forall>t\<in>set (threads s). \<forall>data.
            bondData t = Some data \<or> interestRateData t = Some data \<longrightarrow>
            stored_value data \<in> set (draws (process fmt) init sched)
          \<and> 1 \<le> stored_value data \<and> stored_value data \<le> 100)"
proof -
  let ?P = "\<lambda>v. v \<in> set (draws (process fmt) init sched) \<and> 1 \<le> v \<and> v \<le> 100"
  have "\<forall>v\<in>set (draws (process fmt) init sched). ?P v"
    using c by (simp add: in_range_def dis_def)
  then have v: "values_in ?P s log"
    using values_in_run[OF values_in_init r] by blast
  have "marketDataList (processor s) = map snd log"
    using run_list[OF inv_init r] by (auto simp: init_def)
  then show ?thesis using v by (auto simp: values_in_def)
qed

text \<open>
  In the example all ten draws lie in the range; the element at position 5 stores the
  upper bound 100 and the element at position 9 the lower bound 1.
\<close>

theorem stored_values_within_bounds_witness:
  "run (process (\<lambda>v. [])) (init, []) example_draws_schedule =
     Some (example_draws_joined, example_draws_log)
   \<and> draws (process (\<lambda>v. [])) init example_draws_schedule =
     [57, 12, 3, 2, 99, 100, 42, 8, 64, 1]
   \<and> list_all (in_range dis) [57, 12, 3, 2, 99, 100, 42, 8, 64, 1 :: int]
   \<and> marketDataList (processor example_draws_joined) ! 5 = InterestRateMarketData 100
   \<and> 1 \<le> stored_value (marketDataList (processor example_draws_joined) ! 5)
   \<and> stored_value (marketDataList (processor example_draws_joined) ! 5) \<le> 100
   \<and> 1 \<le> stored_value (marketDataList (processor example_draws_joined) ! 9)
   \<and> stored_value (marketDataList (processor example_draws_joined) ! 9) \<le> 100"
proof -
  have r: "run (process (\<lambda>v. [])) (init, []) example_draws_schedule =
     Some (example_draws_joined, example_draws_log)"
    by (rule run_example_draws)
  have d: "draws (process (\<lambda>v. [])) init example_draws_schedule =
     [57, 12, 3, 2, 99, 100, 42, 8, 64, 1]"
    by (rule draws_example)
  have l: "list_all (in_range dis) [57, 12, 3, 2, 99, 100, 42, 8, 64, 1 :: int]"
    by (simp add: in_range_def dis_def)
  have c: "\<forall>v\<in>set (draws (process (\<lambda>v. [])) init example_draws_schedule). in_range dis v"
    using l unfolding d by (simp add: list_all_iff)
  have m5: "marketDataList (processor example_draws_joined) ! 5 \<in>
      set (marketDataList (processor example_draws_joined))"
    and m9: "marketDataList (processor example_draws_joined) ! 9 \<in>
      set (marketDataList (processor example_draws_joined))"
    by (simp_all add: example_draws_joined_def example_draws_log_def)
  have e5: "marketDataList (processor example_draws_joined) ! 5 = InterestRateMarketData 100"
    by (simp add: example_draws_joined_def example_draws_log_def)
  show ?thesis
    using stored_values_within_bounds[OF r c] r d l m5 m9 e5 by blast
qed

end
